theory Spec2Isabelle
  imports
    Main
    "HOL-Library.Word"
    "HOL-Library.Sublist"
    "HOL-Library.AList"
    "HOL-Library.Char_ord"
    "HOL-Library.List_Lexorder"
begin

section \<open>Strings\<close>

text \<open>
  Strings are byte strings. \<open>toLowerCase\<close> stands for \<^verbatim>\<open>String.prototype.toLowerCase\<close>
  on the ASCII range: the letters \<open>A\<close> to \<open>Z\<close> are moved to \<open>a\<close> to \<open>z\<close>, every other
  character stays as it is. It lower-cases the command names of the registry and the
  text of the examples; the search of the pager takes its lower-casing from outside.
  \<open>includes_str\<close> is \<^verbatim>\<open>String.prototype.includes\<close>: the needle occurs as a contiguous
  run of the haystack.
\<close>

definition toLowerChar :: "char \<Rightarrow> char" where
  "toLowerChar c =
     (let n = (of_char c :: nat)
      in if 65 \<le> n \<and> n \<le> 90 then char_of (n + 32) else c)"

definition toLowerCase :: "string \<Rightarrow> string" where
  "toLowerCase s = map toLowerChar s"

fun includes_str :: "string \<Rightarrow> string \<Rightarrow> bool" where
  "includes_str [] needle = (needle = [])"
| "includes_str (c # cs) needle = (prefix needle (c # cs) \<or> includes_str cs needle)"

section \<open>The manual registry (registry.ts)\<close>

text \<open>
  \<^verbatim>\<open>ManualRegistry\<close> owns a \<^verbatim>\<open>Map<string, ManualPage>\<close>. A JavaScript map keeps its
  keys in insertion order, \<^verbatim>\<open>set\<close> on a key that is present replaces the value in
  place, and \<^verbatim>\<open>delete\<close> answers whether the key was there. The map is an association
  list; the page type is left open, since the registry never looks into a page.
\<close>

type_synonym 'page registry = "(string \<times> 'page) list"

definition initial_registry :: "'page \<Rightarrow> 'page \<Rightarrow> 'page \<Rightarrow> 'page registry" where
  \<comment> \<open>the constructor, given the three imported pages\<close>
  "initial_registry genesisPage initPage devPage =
     [(''genesis'', genesisPage), (''init'', initPage), (''dev'', devPage)]"

definition get :: "'page registry \<Rightarrow> string \<Rightarrow> 'page option" where
  "get pages command = map_of pages (toLowerCase command)"

definition has :: "'page registry \<Rightarrow> string \<Rightarrow> bool" where
  "has pages command = (toLowerCase command \<in> fst ` set pages)"

definition list_commands :: "'page registry \<Rightarrow> string list" where
  \<comment> \<open>\<^verbatim>\<open>list()\<close>: the keys, sorted\<close>
  "list_commands pages = sort (map fst pages)"

definition register :: "'page registry \<Rightarrow> string \<Rightarrow> 'page \<Rightarrow> 'page registry" where
  "register pages command page = AList.update (toLowerCase command) page pages"

definition unregister :: "'page registry \<Rightarrow> string \<Rightarrow> bool \<times> 'page registry" where
  \<comment> \<open>the answer of \<^verbatim>\<open>delete\<close> and the map afterwards\<close>
  "unregister pages command =
     (toLowerCase command \<in> fst ` set pages, AList.delete (toLowerCase command) pages)"

definition registry_size :: "'page registry \<Rightarrow> nat" where
  "registry_size pages = length pages"

section \<open>The pager (pager.ts, renderer.ts)\<close>

subsection \<open>What the model takes from outside\<close>

text \<open>
  Four things are used by the pager and are not written in the repository's sources:
  the regular expression engine behind \<^verbatim>\<open>new RegExp(searchTerm, "gi")\<close>, the text that
  \<^verbatim>\<open>PageRenderer.render\<close> lays out for a page (it is built from the colour functions of
  a styling library), \<^verbatim>\<open>String.prototype.toLowerCase\<close> as the search applies it to the
  lines and to the term, and the answers of the terminal. The first three are
  parameters: \<open>regexp_ok\<close> says whether the constructor accepts a pattern,
  \<open>replace_matches\<close> is \<^verbatim>\<open>line.replace(regex, ...)\<close> for an accepted pattern,
  \<open>page_lines\<close> is the laid-out text of a page at a given width, \<open>lower_case\<close> is the
  lower-casing of a string. The terminal is a list of chunks that
  \<^verbatim>\<open>Deno.stdin.read\<close> returns one after the other, followed by end of input, and a list
  of answers of \<^verbatim>\<open>prompt\<close> (\<open>None\<close> is \<^verbatim>\<open>null\<close>).

  A failure is a JavaScript exception that leaves the function, or \<open>UndefinedLine\<close>:
  the point where \<^verbatim>\<open>searchResults[currentSearchIndex]\<close> reads past the end of the array,
  so that JavaScript would store \<^verbatim>\<open>undefined\<close> in \<^verbatim>\<open>currentLine\<close>. Line numbers are
  integers in this model, so it stops there.
\<close>

type_synonym byte = "8 word"

datatype failure = SyntaxError | RangeError | UndefinedLine

record 'page env =
  regexp_ok :: "string \<Rightarrow> bool"
  replace_matches :: "string \<Rightarrow> string \<Rightarrow> string"
  page_lines :: "int \<Rightarrow> 'page \<Rightarrow> string list"
  lower_case :: "string \<Rightarrow> string"

subsection \<open>The renderer\<close>

definition repeat_str :: "string \<Rightarrow> int \<Rightarrow> failure + string" where
  \<comment> \<open>\<^verbatim>\<open>String.prototype.repeat\<close>: a negative count is a RangeError\<close>
  "repeat_str t n = (if n < 0 then Inl RangeError else Inr (concat (replicate (nat n) t)))"

definition PageRenderer_render :: "'page env \<Rightarrow> int \<Rightarrow> 'page \<Rightarrow> failure + string list" where
  \<comment> \<open>the first statement draws the top border with \<^verbatim>\<open>mid.repeat(terminalWidth - 2)\<close>;
      every later \<^verbatim>\<open>repeat\<close> has a count that is no smaller or is clamped at 0\<close>
  "PageRenderer_render E width page =
     (case repeat_str ''='' (width - 2) of
        Inl e \<Rightarrow> Inl e
      | Inr _ \<Rightarrow> Inr (page_lines E width page))"

definition highlightSearch :: "'page env \<Rightarrow> string \<Rightarrow> string \<Rightarrow> failure + string" where
  "highlightSearch E line tm =
     (if tm = [] then Inr line
      else if \<not> regexp_ok E tm then Inl SyntaxError
      else Inr (replace_matches E tm line))"

subsection \<open>The pager's fields\<close>

record pager =
  lines :: "string list"
  currentLine :: int
  terminalHeight :: int
  terminalWidth :: int
  searchTerm :: string
  searchResults :: "nat list"
  currentSearchIndex :: nat

definition new_ManualPager :: "int \<Rightarrow> int \<Rightarrow> pager" where
  \<comment> \<open>the field initialisers and the constructor, for a console of the given size\<close>
  "new_ManualPager rows columns =
     \<lparr> lines = [], currentLine = 0, terminalHeight = rows - 4, terminalWidth = columns,
       searchTerm = [], searchResults = [], currentSearchIndex = 0 \<rparr>"

subsection \<open>Reading a key\<close>

fun readKey :: "byte list option \<Rightarrow> string" where
  "readKey None = ''q''"
| "readKey (Some [byte]) =
     (if byte = 0x03 then ''q''
      else if byte = 0x04 then ''q''
      else if byte = 0x20 then '' ''
      else if byte = 0x0A \<or> byte = 0x0D then ''down''
      else if 0x20 \<le> byte \<and> byte \<le> 0x7E then [char_of (unat byte)]
      else [])"
| "readKey (Some (b0 # b1 # code # rest)) =
     (if b0 = 0x1B \<and> b1 = 0x5B then
        (if code = 0x41 then ''up''
         else if code = 0x42 then ''down''
         else if code = 0x43 then ''right''
         else if code = 0x44 then ''left''
         else if code = 0x35 then ''pageup''
         else if code = 0x36 then ''pagedown''
         else if code = 0x48 then ''home''
         else if code = 0x46 then ''end''
         else [])
      else [])"
| "readKey (Some data) = []"

subsection \<open>Search\<close>

definition matching_lines :: "'page env \<Rightarrow> string list \<Rightarrow> string \<Rightarrow> nat list" where
  \<comment> \<open>the \<^verbatim>\<open>forEach\<close> of \<^verbatim>\<open>search\<close>: the indices pushed, in order\<close>
  "matching_lines E ls tm =
     filter (\<lambda>index. includes_str (lower_case E (ls ! index)) (lower_case E tm))
       [0 ..< length ls]"

definition search :: "'page env \<Rightarrow> pager \<Rightarrow> string option \<Rightarrow> pager" where
  \<comment> \<open>the argument is what \<^verbatim>\<open>prompt("")\<close> returned\<close>
  "search E s answer =
     (let tm = (case answer of None \<Rightarrow> [] | Some t \<Rightarrow> t);
          s1 = s\<lparr>searchTerm := tm\<rparr>
      in if tm \<noteq> [] then
           (let results = matching_lines E (lines s1) tm;
                s2 = s1\<lparr>searchResults := results\<rparr>
            in if length results > 0
               then s2\<lparr>currentSearchIndex := 0, currentLine := int (results ! 0)\<rparr>
               else s2)
         else s1)"

definition at_index :: "nat list \<Rightarrow> nat \<Rightarrow> nat option" where
  \<comment> \<open>an array read; \<open>None\<close> is \<^verbatim>\<open>undefined\<close>\<close>
  "at_index xs i = (if i < length xs then Some (xs ! i) else None)"

definition jump_to :: "pager \<Rightarrow> nat \<Rightarrow> failure + pager" where
  \<comment> \<open>the two assignments that end \<^verbatim>\<open>nextSearchResult\<close> and \<^verbatim>\<open>prevSearchResult\<close>\<close>
  "jump_to s i =
     (case at_index (searchResults s) i of
        None \<Rightarrow> Inl UndefinedLine
      | Some l \<Rightarrow> Inr (s\<lparr>currentSearchIndex := i, currentLine := int l\<rparr>))"

definition nextSearchResult :: "pager \<Rightarrow> failure + pager" where
  "nextSearchResult s =
     (if length (searchResults s) = 0 then Inr s
      else jump_to s ((currentSearchIndex s + 1) mod length (searchResults s)))"

definition prevSearchResult :: "pager \<Rightarrow> failure + pager" where
  "prevSearchResult s =
     (if length (searchResults s) = 0 then Inr s
      else jump_to s (if currentSearchIndex s = 0
                      then length (searchResults s) - 1
                      else currentSearchIndex s - 1))"

subsection \<open>The key switch of the loop\<close>

definition handleKey ::
  "'page env \<Rightarrow> pager \<Rightarrow> string \<Rightarrow> string option \<Rightarrow> failure + pager" where
  \<comment> \<open>the \<^verbatim>\<open>switch (key)\<close> of \<^verbatim>\<open>renderLoop\<close> as a function of the fields; \<open>answer\<close> is
      what \<^verbatim>\<open>prompt\<close> returns if the key is \<open>/\<close>; \<open>q\<close>, \<open>h\<close> and \<open>?\<close> change no field\<close>
  "handleKey E s key answer =
     (if key = ''q'' then Inr s
      else if key = ''j'' \<or> key = ''down'' then
        (if currentLine s + terminalHeight s < int (length (lines s))
         then Inr (s\<lparr>currentLine := currentLine s + 1\<rparr>) else Inr s)
      else if key = ''k'' \<or> key = ''up'' then
        (if currentLine s > 0
         then Inr (s\<lparr>currentLine := currentLine s - 1\<rparr>) else Inr s)
      else if key = '' '' \<or> key = ''pagedown'' then
        Inr (s\<lparr>currentLine :=
               min (currentLine s + terminalHeight s)
                   (max 0 (int (length (lines s)) - terminalHeight s))\<rparr>)
      else if key = ''b'' \<or> key = ''pageup'' then
        Inr (s\<lparr>currentLine := max (currentLine s - terminalHeight s) 0\<rparr>)
      else if key = ''g'' \<or> key = ''home'' then
        Inr (s\<lparr>currentLine := 0\<rparr>)
      else if key = ''G'' \<or> key = ''end'' then
        Inr (s\<lparr>currentLine := max 0 (int (length (lines s)) - terminalHeight s)\<rparr>)
      else if key = ''/'' then Inr (search E s answer)
      else if key = ''n'' then nextSearchResult s
      else if key = ''N'' then prevSearchResult s
      else Inr s)"

subsection \<open>Drawing the view\<close>

definition js_slice :: "'a list \<Rightarrow> int \<Rightarrow> int \<Rightarrow> 'a list" where
  \<comment> \<open>\<^verbatim>\<open>Array.prototype.slice(start, end)\<close>: a negative bound counts from the end\<close>
  "js_slice xs start finish =
     (let len = int (length xs);
          k = (if start < 0 then max (len + start) 0 else min start len);
          f = (if finish < 0 then max (len + finish) 0 else min finish len)
      in take (nat (f - k)) (drop (nat k) xs))"

fun highlight_all :: "'page env \<Rightarrow> string \<Rightarrow> string list \<Rightarrow> failure + string list" where
  \<comment> \<open>the \<^verbatim>\<open>visibleLines.forEach\<close>: the first exception ends it\<close>
  "highlight_all E tm [] = Inr []"
| "highlight_all E tm (l # ls) =
     (case highlightSearch E l tm of
        Inl e \<Rightarrow> Inl e
      | Inr shown \<Rightarrow>
          (case highlight_all E tm ls of
             Inl e \<Rightarrow> Inl e
           | Inr rest \<Rightarrow> Inr (shown # rest)))"

definition renderStatusBar :: "pager \<Rightarrow> failure + unit" where
  \<comment> \<open>only whether the status bar can be drawn: its border is
      \<^verbatim>\<open>"=".repeat(terminalWidth - 2)\<close>; its text is not modelled\<close>
  "renderStatusBar s =
     (case repeat_str ''='' (terminalWidth s - 2) of Inl e \<Rightarrow> Inl e | Inr _ \<Rightarrow> Inr ())"

definition render :: "'page env \<Rightarrow> pager \<Rightarrow> failure + string list" where
  \<comment> \<open>the lines printed above the status bar\<close>
  "render E s =
     (let visibleLines = js_slice (lines s) (currentLine s) (currentLine s + terminalHeight s)
      in case highlight_all E (searchTerm s) visibleLines of
           Inl e \<Rightarrow> Inl e
         | Inr shown \<Rightarrow>
             (let remaining = terminalHeight s - int (length visibleLines)
              in case renderStatusBar s of
                   Inl e \<Rightarrow> Inl e
                 | Inr _ \<Rightarrow> Inr (shown @ replicate (nat remaining) ''~'')))"

subsection \<open>The loop and \<^verbatim>\<open>display\<close>\<close>

definition prompt :: "string option list \<Rightarrow> string option" where
  "prompt answers = (case answers of [] \<Rightarrow> None | a # _ \<Rightarrow> a)"

text \<open>
  One turn of the loop draws the view, reads one chunk and runs the switch. \<open>q\<close> and
  the end of input (\<^verbatim>\<open>readKey\<close> returns \<open>q\<close> there) end the loop; the value returned is
  the pager's fields at that moment. The help screen reads one more chunk and throws it
  away; a search takes one answer of \<^verbatim>\<open>prompt\<close>.
\<close>

function renderLoop ::
  "'page env \<Rightarrow> pager \<Rightarrow> byte list list \<Rightarrow> string option list \<Rightarrow> failure + pager" where
  "renderLoop E s [] answers =
     (case render E s of Inl e \<Rightarrow> Inl e | Inr _ \<Rightarrow> Inr s)"
| "renderLoop E s (chunk # reads) answers =
     (case render E s of
        Inl e \<Rightarrow> Inl e
      | Inr _ \<Rightarrow>
          (let key = readKey (Some chunk)
           in if key = ''q'' then Inr s
              else
                (case handleKey E s key (prompt answers) of
                   Inl e \<Rightarrow> Inl e
                 | Inr s' \<Rightarrow>
                     renderLoop E s'
                       (if key = ''h'' \<or> key = ''?'' then tl reads else reads)
                       (if key = ''/'' then tl answers else answers))))"
  by pat_completeness auto
termination
  by (relation "measure (\<lambda>(E, s, reads, answers). length reads)") auto

definition display_start :: "'page env \<Rightarrow> pager \<Rightarrow> 'page \<Rightarrow> failure + pager" where
  \<comment> \<open>the two assignments that open \<^verbatim>\<open>display\<close>\<close>
  "display_start E s page =
     (case PageRenderer_render E (terminalWidth s) page of
        Inl e \<Rightarrow> Inl e
      | Inr ls \<Rightarrow> Inr (s\<lparr>lines := ls, currentLine := 0\<rparr>))"

definition display ::
  "'page env \<Rightarrow> pager \<Rightarrow> 'page \<Rightarrow> byte list list \<Rightarrow> string option list \<Rightarrow> failure + pager" where
  "display E s page reads answers =
     (case display_start E s page of
        Inl e \<Rightarrow> Inl e
      | Inr s0 \<Rightarrow> renderLoop E s0 reads answers)"

section \<open>The command line (genesis-man.ts)\<close>

text \<open>
  What \<^verbatim>\<open>showManual\<close> prints when the topic is missing, without the colours: the
  banner, the sentence naming the topic, an empty line, a heading and the registered
  commands.
\<close>

datatype message = ErrorBanner | NoManualEntry string | EmptyLine | AvailableHeading
  | CommandName string

definition showManual ::
  "'page env \<Rightarrow> 'page registry \<Rightarrow> int \<Rightarrow> int \<Rightarrow> string \<Rightarrow> byte list list \<Rightarrow>
   string option list \<Rightarrow> failure + message list" where
  \<comment> \<open>\<open>rows\<close> and \<open>columns\<close> are the console size that the new pager reads\<close>
  "showManual E registry rows columns topic reads answers =
     (case get registry (toLowerCase topic) of
        None \<Rightarrow>
          Inr ([ErrorBanner, NoManualEntry topic, EmptyLine, AvailableHeading]
               @ map CommandName (list_commands registry))
      | Some page \<Rightarrow>
          (case display E (new_ManualPager rows columns) page reads answers of
             Inl e \<Rightarrow> Inl e
           | Inr _ \<Rightarrow> Inr []))"

definition manCommand ::
  "'page env \<Rightarrow> 'page registry \<Rightarrow> int \<Rightarrow> int \<Rightarrow> string list \<Rightarrow> byte list list \<Rightarrow>
   string option list \<Rightarrow> int" where
  "manCommand E registry rows columns args reads answers =
     (let topic = (case args of [] \<Rightarrow> ''genesis''
                   | a # _ \<Rightarrow> if a = [] then ''genesis'' else a)
      in case showManual E registry rows columns topic reads answers of
           Inr _ \<Rightarrow> 0
         | Inl _ \<Rightarrow> 1)"

section \<open>The shell's path check (the \<^verbatim>\<open>GenesisManRepl\<close> class)\<close>

subsection \<open>The path functions of the standard library\<close>

text \<open>
  The shell imports \<^verbatim>\<open>resolve\<close> and \<^verbatim>\<open>relative\<close> from the path module of the
  standard library; on the systems the shell's own test for an absolute path
  (\<^verbatim>\<open>path.startsWith('/')\<close>) is written for, these are the POSIX versions. They work on
  the text of a path only. \<open>cwd\<close> is what \<^verbatim>\<open>Deno.cwd()\<close> returns.

  \<^verbatim>\<open>resolve\<close> goes through its arguments from the last to the first, skipping empty ones
  and putting each in front of what it has, until one is absolute; if none is, the
  working directory goes in front. \<^verbatim>\<open>normalizeString\<close> then drops empty segments and
  \<open>.\<close>, and lets \<open>..\<close> remove the segment before it; where there is none to remove,
  \<open>..\<close> is kept for a relative path and dropped for an absolute one.

  \<^verbatim>\<open>relative\<close> resolves both paths, answers the empty string if they are equal, and
  otherwise leaves out their common leading segments, writing one \<open>..\<close> for every
  remaining segment of the first path and then the remaining segments of the second.
\<close>

fun split_on :: "char \<Rightarrow> string \<Rightarrow> string list" where
  \<comment> \<open>the pieces of a text between occurrences of the separator\<close>
  "split_on sep [] = [[]]"
| "split_on sep (c # cs) =
     (if c = sep then [] # split_on sep cs
      else (case split_on sep cs of
              [] \<Rightarrow> [[c]]
            | seg # segs \<Rightarrow> (c # seg) # segs))"

fun join_slash :: "string list \<Rightarrow> string" where
  \<comment> \<open>the segments with \<open>/\<close> between them\<close>
  "join_slash [] = []"
| "join_slash [seg] = seg"
| "join_slash (seg # segs) = seg @ CHR ''/'' # join_slash segs"

definition startsWith :: "string \<Rightarrow> string \<Rightarrow> bool" where
  "startsWith s p = prefix p s"

definition norm_step :: "bool \<Rightarrow> string list \<Rightarrow> string \<Rightarrow> string list" where
  \<comment> \<open>one segment of \<^verbatim>\<open>normalizeString\<close>, applied to the segments kept so far\<close>
  "norm_step allowAboveRoot res seg =
     (if seg = [] \<or> seg = ''.'' then res
      else if seg = ''..'' then
        (if res \<noteq> [] \<and> last res \<noteq> ''..'' then butlast res
         else if allowAboveRoot then res @ [''..'']
         else res)
      else res @ [seg])"

definition normalizeString :: "string \<Rightarrow> bool \<Rightarrow> string" where
  "normalizeString path allowAboveRoot =
     join_slash (foldl (norm_step allowAboveRoot) [] (split_on CHR ''/'' path))"

fun resolve_loop :: "string \<Rightarrow> string list \<Rightarrow> string \<Rightarrow> string \<times> bool" where
  \<comment> \<open>the loop of \<^verbatim>\<open>resolve\<close>: the arguments from the last to the first, then the
      working directory; the answer is the text collected and whether it is absolute\<close>
  "resolve_loop cwd [] resolvedPath =
     (if cwd = [] then (resolvedPath, False)
      else (cwd @ CHR ''/'' # resolvedPath, hd cwd = CHR ''/''))"
| "resolve_loop cwd (path # earlier) resolvedPath =
     (if path = [] then resolve_loop cwd earlier resolvedPath
      else if hd path = CHR ''/'' then (path @ CHR ''/'' # resolvedPath, True)
      else resolve_loop cwd earlier (path @ CHR ''/'' # resolvedPath))"

definition resolve :: "string \<Rightarrow> string list \<Rightarrow> string" where
  "resolve cwd pathSegments =
     (let (resolvedPath, resolvedAbsolute) = resolve_loop cwd (rev pathSegments) [];
          normalized = normalizeString resolvedPath (\<not> resolvedAbsolute)
      in if resolvedAbsolute then (if normalized \<noteq> [] then CHR ''/'' # normalized else ''/'')
         else (if normalized \<noteq> [] then normalized else ''.''))"

definition segments :: "string \<Rightarrow> string list" where
  \<comment> \<open>the segments of a resolved path\<close>
  "segments p = filter (\<lambda>seg. seg \<noteq> []) (split_on CHR ''/'' p)"

fun relative_segments :: "string list \<Rightarrow> string list \<Rightarrow> string list" where
  "relative_segments (r # rs) (t # ts) =
     (if r = t then relative_segments rs ts
      else map (\<lambda>_. ''..'') (r # rs) @ (t # ts))"
| "relative_segments rs ts = map (\<lambda>_. ''..'') rs @ ts"

definition relative :: "string \<Rightarrow> string \<Rightarrow> string \<Rightarrow> string" where
  "relative cwd from to =
     (let from' = resolve cwd [from]; to' = resolve cwd [to]
      in if from' = to' then []
         else join_slash (relative_segments (segments from') (segments to')))"

subsection \<open>The shell\<close>

text \<open>
  Of the fields of the shell, the path check reads \<open>rootDir\<close> and \<open>currentDir\<close>. The
  constructor sets both to the working directory.
\<close>

record repl =
  rootDir :: string
  currentDir :: string

definition new_GenesisManRepl :: "string \<Rightarrow> repl" where
  "new_GenesisManRepl cwd = \<lparr> rootDir = cwd, currentDir = cwd \<rparr>"

definition isPathAllowed :: "string \<Rightarrow> repl \<Rightarrow> string \<Rightarrow> bool" where
  "isPathAllowed cwd sh targetPath =
     (let resolved = resolve cwd [targetPath];
          rel = relative cwd (rootDir sh) resolved
      in \<not> startsWith rel ''..'' \<and> \<not> startsWith (resolve cwd [rel]) ''..'')"

definition normalizePath :: "string \<Rightarrow> repl \<Rightarrow> string \<Rightarrow> string" where
  "normalizePath cwd sh path =
     (if startsWith path ''/'' then currentDir sh
      else resolve cwd [currentDir sh, path])"

text \<open>
  \<^verbatim>\<open>cdCommand\<close>, \<^verbatim>\<open>lsCommand\<close>, \<^verbatim>\<open>catCommand\<close>, \<^verbatim>\<open>lessCommand\<close> and \<^verbatim>\<open>treeCommand\<close>
  treat a path argument in the same way: they normalise it, and either refuse it with
  "Access denied" before any file is touched, or go on with the normalised path.
\<close>

datatype resolution = AbsolutePath string | Denied

definition checked_path :: "string \<Rightarrow> repl \<Rightarrow> string \<Rightarrow> resolution" where
  "checked_path cwd sh arg =
     (let targetPath = normalizePath cwd sh arg
      in if \<not> isPathAllowed cwd sh targetPath then Denied
         else AbsolutePath targetPath)"

text \<open>
  A path is under the root when the segments of the resolved root begin the segments of
  the resolved path. \<open>path_text\<close> is the text of the absolute path with the given
  segments; a segment is clean when \<^verbatim>\<open>normalizeString\<close> keeps it as it is.
\<close>

definition under_root :: "string \<Rightarrow> repl \<Rightarrow> string \<Rightarrow> bool" where
  "under_root cwd sh p =
     prefix (segments (resolve cwd [rootDir sh])) (segments (resolve cwd [p]))"

definition is_absolute :: "string \<Rightarrow> bool" where
  "is_absolute p = startsWith p ''/''"

definition clean :: "string \<Rightarrow> bool" where
  "clean seg = (seg \<noteq> [] \<and> seg \<noteq> ''.'' \<and> seg \<noteq> ''..'' \<and> CHR ''/'' \<notin> set seg)"

definition path_text :: "string list \<Rightarrow> string" where
  "path_text segs = (if segs = [] then ''/'' else CHR ''/'' # join_slash segs)"

definition repo_sub :: repl where
  \<comment> \<open>the shell of the specification's scenario, after \<^verbatim>\<open>cd sub\<close>\<close>
  "repo_sub = \<lparr> rootDir = ''/repo'', currentDir = ''/repo/sub'' \<rparr>"

section \<open>Predicates and example states\<close>

text \<open>
  \<open>topLine_ok\<close> is the bound of the specification on the first visible line;
  \<open>idx_ok\<close> says that the current match index points into the match list when there
  are matches; \<open>draws\<close> says that the view can be drawn: the search term is empty or
  an accepted pattern, and the status bar's border has a length.
\<close>

definition topLine_ok :: "pager \<Rightarrow> bool" where
  "topLine_ok s = (0 \<le> currentLine s \<and> currentLine s \<le> max 0 (int (length (lines s)) - terminalHeight s))"

definition idx_ok :: "pager \<Rightarrow> bool" where
  "idx_ok s = (searchResults s = [] \<or> currentSearchIndex s < length (searchResults s))"

definition draws :: "'page env \<Rightarrow> pager \<Rightarrow> bool" where
  "draws E s = ((searchTerm s = [] \<or> regexp_ok E (searchTerm s)) \<and> 2 \<le> terminalWidth s)"

text \<open>
  A stand-in for the outside, used where a theorem is run on an example: the patterns
  accepted are given, nothing is highlighted, a page is its own list of lines and
  lower-casing is \<open>toLowerCase\<close>. \<open>accept_all\<close> is the one that accepts every pattern.
\<close>

definition stub_env :: "(string \<Rightarrow> bool) \<Rightarrow> (string list) env" where
  "stub_env ok =
     \<lparr> regexp_ok = ok, replace_matches = (\<lambda>tm line. line), page_lines = (\<lambda>width page. page),
       lower_case = toLowerCase \<rparr>"

abbreviation accept_all :: "(string list) env" where
  "accept_all \<equiv> stub_env (\<lambda>t. True)"

definition five_lines :: pager where
  "five_lines = \<lparr> lines = [''a'', ''a'', ''a'', ''a'', ''x''], currentLine = 0, terminalHeight = 3,
     terminalWidth = 80, searchTerm = [], searchResults = [], currentSearchIndex = 0 \<rparr>"

definition stale_matches :: pager where
  "stale_matches = \<lparr> lines = [''ab'', ''cd'', ''ab''], currentLine = 2, terminalHeight = 1,
     terminalWidth = 80, searchTerm = ''ab'', searchResults = [0, 2], currentSearchIndex = 1 \<rparr>"

definition three_matches :: pager where
  \<comment> \<open>thirteen lines, the term on lines 3, 7 and 12, as a search for it leaves them\<close>
  "three_matches =
     \<lparr> lines = [''a'', ''b'', ''c'', ''x1'', ''d'', ''e'', ''f'', ''2X'', ''g'', ''h'', ''i'', ''j'', ''x''],
       currentLine = 3, terminalHeight = 5, terminalWidth = 80,
       searchTerm = ''x'', searchResults = [3, 7, 12], currentSearchIndex = 0 \<rparr>"

section \<open>Facts about strings\<close>

lemma toLowerChar_idem: "toLowerChar (toLowerChar c) = toLowerChar c"
  by (simp add: toLowerChar_def Let_def)

lemma toLowerCase_idem: "toLowerCase (toLowerCase s) = toLowerCase s"
  by (simp add: toLowerCase_def toLowerChar_idem)

lemma includes_iff: "includes_str hay needle \<longleftrightarrow> (\<exists>ps ss. hay = ps @ needle @ ss)"
proof (induction hay)
  case Nil
  then show ?case by auto
next
  case (Cons c cs)
  show ?case
  proof
    assume "includes_str (c # cs) needle"
    then consider "prefix needle (c # cs)" | "includes_str cs needle" by auto
    then show "\<exists>ps ss. c # cs = ps @ needle @ ss"
    proof cases
      case 1
      then obtain ss where "c # cs = needle @ ss" by (auto simp: prefix_def)
      then have "c # cs = [] @ needle @ ss" by simp
      then show ?thesis by blast
    next
      case 2
      with Cons.IH obtain ps ss where "cs = ps @ needle @ ss" by blast
      then have "c # cs = (c # ps) @ needle @ ss" by simp
      then show ?thesis by blast
    qed
  next
    assume "\<exists>ps ss. c # cs = ps @ needle @ ss"
    then obtain ps ss where eq: "c # cs = ps @ needle @ ss" by blast
    show "includes_str (c # cs) needle"
    proof (cases ps)
      case Nil
      with eq have "prefix needle (c # cs)" by (simp add: prefix_def)
      then show ?thesis by simp
    next
      case (Cons p ps')
      with eq have "cs = ps' @ needle @ ss" by simp
      with Cons.IH have "includes_str cs needle" by blast
      then show ?thesis by simp
    qed
  qed
qed

section \<open>Facts about the pager\<close>

lemma matching_lines_bound: "i \<in> set (matching_lines E ls t) \<Longrightarrow> i < length ls"
  by (auto simp: matching_lines_def)

lemma search_fields:
  "lines (search E s a) = lines s" "terminalHeight (search E s a) = terminalHeight s"
  "terminalWidth (search E s a) = terminalWidth s"
  by (simp_all add: search_def Let_def)

lemma search_idx_ok: "idx_ok s \<Longrightarrow> idx_ok (search E s a)"
  by (auto simp: search_def Let_def idx_ok_def)

lemma jump_to_ok: "i < length (searchResults s) \<Longrightarrow>
   jump_to s i = Inr (s\<lparr>currentSearchIndex := i, currentLine := int (searchResults s ! i)\<rparr>)"
  by (simp add: jump_to_def at_index_def)

lemma next_ok: "searchResults s \<noteq> [] \<Longrightarrow>
  nextSearchResult s = Inr (s\<lparr>currentSearchIndex := (currentSearchIndex s + 1) mod length (searchResults s),
     currentLine := int (searchResults s ! ((currentSearchIndex s + 1) mod length (searchResults s)))\<rparr>)"
  by (simp add: nextSearchResult_def jump_to_ok)

lemma prev_ok: "searchResults s \<noteq> [] \<Longrightarrow> currentSearchIndex s < length (searchResults s) \<Longrightarrow>
  prevSearchResult s =
    Inr (s\<lparr>currentSearchIndex :=
             (if currentSearchIndex s = 0 then length (searchResults s) - 1 else currentSearchIndex s - 1),
           currentLine := int (searchResults s !
             (if currentSearchIndex s = 0 then length (searchResults s) - 1 else currentSearchIndex s - 1))\<rparr>)"
  by (cases "currentSearchIndex s = 0") (simp_all add: prevSearchResult_def jump_to_ok)

lemma handleKey_total:
  assumes "idx_ok s"
  shows "\<exists>s'. handleKey E s key a = Inr s' \<and> idx_ok s' \<and> lines s' = lines s
     \<and> terminalHeight s' = terminalHeight s \<and> terminalWidth s' = terminalWidth s"
proof -
  consider "key = ''/''" | "key = ''n''" | "key = ''N''" | "key \<noteq> ''/'' \<and> key \<noteq> ''n'' \<and> key \<noteq> ''N''" by blast
  then show ?thesis
  proof cases
    case 1
    then show ?thesis using assms by (simp add: handleKey_def search_idx_ok search_fields)
  next
    case 2
    show ?thesis
    proof (cases "searchResults s = []")
      case True
      then show ?thesis using 2 assms by (simp add: handleKey_def nextSearchResult_def)
    next
      case False
      then show ?thesis using 2 by (simp add: handleKey_def next_ok idx_ok_def)
    qed
  next
    case 3
    show ?thesis
    proof (cases "searchResults s = []")
      case True
      then show ?thesis using 3 assms by (simp add: handleKey_def prevSearchResult_def)
    next
      case False
      then have "currentSearchIndex s < length (searchResults s)" using assms by (simp add: idx_ok_def)
      then show ?thesis using 3 False by (auto simp: handleKey_def prev_ok idx_ok_def)
    qed
  next
    case 4
    then show ?thesis using assms by (auto simp: handleKey_def idx_ok_def)
  qed
qed

lemma highlight_all_failure: "highlight_all E t ls = Inl e \<Longrightarrow> e = SyntaxError"
  by (induction ls arbitrary: e) (auto simp: highlightSearch_def split: if_splits sum.splits)

lemma render_failure: "render E s = Inl e \<Longrightarrow> e = SyntaxError \<or> e = RangeError"
  by (auto simp: render_def renderStatusBar_def repeat_str_def Let_def
      split: sum.splits if_splits dest: highlight_all_failure)

lemma render_not_undefined: "render E s \<noteq> Inl UndefinedLine"
  using render_failure [of E s UndefinedLine] by auto

lemma renderLoop_never_undefined:
  "idx_ok s \<Longrightarrow> renderLoop E s reads answers \<noteq> Inl UndefinedLine"
proof (induction E s reads answers rule: renderLoop.induct)
  case (1 E s answers)
  then show ?case
    using render_not_undefined [of E s] by (auto split: sum.splits)
next
  case (2 E s chunk reads answers)
  show ?case
  proof (cases "render E s")
    case (Inl e)
    then show ?thesis using render_not_undefined [of E s] by auto
  next
    case (Inr out)
    show ?thesis
    proof (cases "readKey (Some chunk) = ''q''")
      case True
      then show ?thesis using Inr by simp
    next
      case False
      from handleKey_total [OF "2.prems", where key = "readKey (Some chunk)" and a = "prompt answers" and E = E]
      obtain s' where h: "handleKey E s (readKey (Some chunk)) (prompt answers) = Inr s'"
        and ok: "idx_ok s'" by blast
      from "2.IH" [OF Inr refl False h ok] show ?thesis
        using Inr False h by (simp add: Let_def)
    qed
  qed
qed

lemma highlight_all_ok: "tm = [] \<or> regexp_ok E tm \<Longrightarrow> \<exists>out. highlight_all E tm ls = Inr out"
  by (induction ls) (auto simp: highlightSearch_def)

lemma render_ok: "draws E s \<Longrightarrow> \<exists>out. render E s = Inr out"
proof -
  assume d: "draws E s"
  then obtain out where "highlight_all E (searchTerm s)
      (js_slice (lines s) (currentLine s) (currentLine s + terminalHeight s)) = Inr out"
    using highlight_all_ok [of "searchTerm s" E] by (auto simp: draws_def)
  then show ?thesis using d
    by (simp add: render_def Let_def renderStatusBar_def repeat_str_def draws_def)
qed

lemma five_lines_ok: "0 \<le> terminalHeight five_lines" "topLine_ok five_lines" "idx_ok five_lines"
  by (simp_all add: five_lines_def topLine_ok_def idx_ok_def)

lemma matching_lines_sorted: "sorted_wrt (<) (matching_lines E ls tm)"
  by (simp add: matching_lines_def sorted_wrt_filter)

lemma matching_lines_set:
  "set (matching_lines E ls tm) =
     {i. i < length ls \<and> (\<exists>ps ss. lower_case E (ls ! i) = ps @ lower_case E tm @ ss)}"
  by (auto simp: matching_lines_def includes_iff)

text \<open>
  The matches follow the lower-casing that is given: with one that also folds the byte
  \<open>0xC9\<close> to \<open>0xE9\<close>, a line of the first is found by a term of the second.
\<close>

lemma matching_lines_other_lower_casing:
  "matching_lines
     (accept_all\<lparr>lower_case := map (\<lambda>c. if c = char_of (0xC9 :: nat) then char_of (0xE9 :: nat) else c)\<rparr>)
     [[char_of (0xC9 :: nat)]] [char_of (0xE9 :: nat)] = [0]"
  by (simp add: matching_lines_def)

lemma readKey_n: "readKey (Some [0x6E]) = ''n''" by code_simp

lemma renderLoop_eof: "draws E s \<Longrightarrow> renderLoop E s [] answers = Inr s"
  using render_ok [of E s] by auto

lemma renderLoop_n:
  assumes "draws E s" and "searchResults s \<noteq> []"
  shows "renderLoop E s ([0x6E] # reads) answers =
           renderLoop E (s\<lparr>currentSearchIndex := (currentSearchIndex s + 1) mod length (searchResults s),
                           currentLine := int (searchResults s !
                              ((currentSearchIndex s + 1) mod length (searchResults s)))\<rparr>) reads answers"
proof -
  from render_ok [OF assms(1)] obtain out where "render E s = Inr out" by blast
  then show ?thesis
    using assms(2) by (simp add: readKey_n handleKey_def next_ok del: readKey.simps)
qed

lemma press_n_times:
  assumes "draws E s" and "searchResults s \<noteq> []"
  shows "\<exists>s'. renderLoop E s (replicate j [0x6E]) answers = Inr s'
           \<and> searchResults s' = searchResults s
           \<and> (0 < j \<longrightarrow> currentSearchIndex s' = (currentSearchIndex s + j) mod length (searchResults s)
                      \<and> currentLine s' = int (searchResults s ! currentSearchIndex s'))"
  using assms
proof (induction j arbitrary: s)
  case 0
  then show ?case using renderLoop_eof [of E s answers] by (simp del: renderLoop.simps)
next
  case (Suc j)
  let ?k = "length (searchResults s)"
  let ?t = "s\<lparr>currentSearchIndex := (currentSearchIndex s + 1) mod ?k,
              currentLine := int (searchResults s ! ((currentSearchIndex s + 1) mod ?k))\<rparr>"
  have d: "draws E ?t" using Suc.prems(1) by (simp add: draws_def)
  have r: "searchResults ?t \<noteq> []" using Suc.prems(2) by simp
  from Suc.IH [OF d r] obtain s' where
    l: "renderLoop E ?t (replicate j [0x6E]) answers = Inr s'"
    and sr: "searchResults s' = searchResults s"
    and ix: "0 < j \<longrightarrow> currentSearchIndex s' = ((currentSearchIndex s + 1) mod ?k + j) mod ?k
                      \<and> currentLine s' = int (searchResults s ! currentSearchIndex s')"
    by auto
  have step: "renderLoop E s (replicate (Suc j) [0x6E]) answers = Inr s'"
    using renderLoop_n [OF Suc.prems, of "replicate j [0x6E]" answers] l by simp
  show ?case
  proof (cases "j = 0")
    case True
    then have "s' = ?t" using l renderLoop_eof [OF d, of answers] by (simp del: renderLoop.simps)
    then show ?thesis using step True by auto
  next
    case False
    then have "currentSearchIndex s' = (currentSearchIndex s + Suc j) mod ?k"
      using ix by (simp add: mod_simps)
    then show ?thesis using step sr ix False by auto
  qed
qed

lemma js_slice_nonempty:
  assumes "0 \<le> start" "start < int (length xs)" "0 < h"
  shows "js_slice xs start (start + h) \<noteq> []"
proof -
  have "min (start + h) (int (length xs)) - start > 0" using assms by simp
  moreover have "nat start < length xs" using assms by simp
  ultimately show ?thesis using assms by (simp add: js_slice_def Let_def min_def)
qed

lemma highlight_all_rejected:
  "tm \<noteq> [] \<Longrightarrow> \<not> regexp_ok E tm \<Longrightarrow> ls \<noteq> [] \<Longrightarrow> highlight_all E tm ls = Inl SyntaxError"
  by (cases ls) (simp_all add: highlightSearch_def)

lemma render_rejected:
  assumes "searchTerm s \<noteq> []" "\<not> regexp_ok E (searchTerm s)"
    "0 \<le> currentLine s" "currentLine s < int (length (lines s))" "0 < terminalHeight s"
  shows "render E s = Inl SyntaxError"
  using highlight_all_rejected [OF assms(1,2) js_slice_nonempty [OF assms(3,4,5)]]
  by (simp add: render_def)

lemma search_line_in_range:
  assumes "0 \<le> currentLine s" "currentLine s < int (length (lines s))"
  shows "0 \<le> currentLine (search E s a) \<and> currentLine (search E s a) < int (length (lines (search E s a)))"
proof (cases "\<exists>t. a = Some t \<and> t \<noteq> [] \<and> matching_lines E (lines s) t \<noteq> []")
  case True
  then obtain t where t: "a = Some t" "t \<noteq> []" "matching_lines E (lines s) t \<noteq> []" by blast
  then have "matching_lines E (lines s) t ! 0 \<in> set (matching_lines E (lines s) t)" by simp
  then have "matching_lines E (lines s) t ! 0 < length (lines s)" by (rule matching_lines_bound)
  then show ?thesis using t by (simp add: search_def Let_def)
next
  case False
  then show ?thesis using assms by (cases a) (auto simp: search_def Let_def)
qed

text \<open>
  The failure \<open>UndefinedLine\<close> is never reached from a pager as the constructor makes
  it: the match index stays valid through every key, every loop and every \<open>display\<close>.
\<close>

lemma renderLoop_idx_ok:
  "idx_ok s \<Longrightarrow> renderLoop E s reads answers = Inr s' \<Longrightarrow> idx_ok s'"
proof (induction E s reads answers rule: renderLoop.induct)
  case (1 E s answers)
  then show ?case by (auto split: sum.splits)
next
  case (2 E s chunk reads answers)
  show ?case
  proof (cases "render E s")
    case (Inl e)
    then show ?thesis using "2.prems" by simp
  next
    case (Inr out)
    show ?thesis
    proof (cases "readKey (Some chunk) = ''q''")
      case True
      then show ?thesis using Inr "2.prems" by simp
    next
      case False
      from handleKey_total [OF "2.prems"(1), where key = "readKey (Some chunk)" and a = "prompt answers"
          and E = E]
      obtain t where h: "handleKey E s (readKey (Some chunk)) (prompt answers) = Inr t"
        and ok: "idx_ok t" by blast
      have "renderLoop E t
              (if readKey (Some chunk) = ''h'' \<or> readKey (Some chunk) = ''?'' then tl reads else reads)
              (if readKey (Some chunk) = ''/'' then tl answers else answers) = Inr s'"
        using "2.prems"(2) Inr False h by (simp add: Let_def)
      with "2.IH" [OF Inr refl False h ok] show ?thesis by simp
    qed
  qed
qed

lemma new_ManualPager_idx_ok: "idx_ok (new_ManualPager rows columns)"
  by (simp add: idx_ok_def new_ManualPager_def)

lemma display_start_idx_ok: "idx_ok s \<Longrightarrow> display_start E s page = Inr s0 \<Longrightarrow> idx_ok s0"
  by (auto simp: display_start_def idx_ok_def split: sum.splits)

lemma display_start_failure: "display_start E s page = Inl e \<Longrightarrow> e = RangeError"
  by (auto simp: display_start_def PageRenderer_render_def repeat_str_def split: sum.splits if_splits)

lemma display_never_undefined:
  assumes "idx_ok s"
  shows "display E s page reads answers \<noteq> Inl UndefinedLine"
proof (cases "display_start E s page")
  case (Inl e)
  then show ?thesis using display_start_failure [OF Inl] by (simp add: display_def)
next
  case (Inr s0)
  then show ?thesis
    using renderLoop_never_undefined [OF display_start_idx_ok [OF assms Inr]]
    by (simp add: display_def)
qed

lemma display_idx_ok:
  "idx_ok s \<Longrightarrow> display E s page reads answers = Inr s' \<Longrightarrow> idx_ok s'"
  by (auto simp: display_def split: sum.splits
      dest: display_start_idx_ok renderLoop_idx_ok)

text \<open>
  A console of fewer than four rows gives a negative viewport height; page-down then
  moves the first visible line below 0.
\<close>

lemma page_down_with_negative_height:
  "handleKey E (new_ManualPager 2 80) '' '' None = Inr ((new_ManualPager 2 80)\<lparr>currentLine := - 2\<rparr>)"
  by (simp add: handleKey_def new_ManualPager_def)

text \<open>What \<open>display\<close> assigns and what it leaves.\<close>

lemma display_keeps_search_fields:
  "display_start E s page = Inr s' \<Longrightarrow>
     currentLine s' = 0 \<and> lines s' = page_lines E (terminalWidth s) page
     \<and> searchTerm s' = searchTerm s \<and> searchResults s' = searchResults s
     \<and> currentSearchIndex s' = currentSearchIndex s"
  by (auto simp: display_start_def PageRenderer_render_def split: sum.splits)

lemma first_display_is_fresh:
  "display_start E (new_ManualPager rows columns) page = Inr s' \<Longrightarrow>
     currentLine s' = 0 \<and> searchTerm s' = [] \<and> searchResults s' = [] \<and> currentSearchIndex s' = 0"
  by (auto simp: display_start_def new_ManualPager_def split: sum.splits)

section \<open>Facts about the registry\<close>

lemma map_of_delete_same: "map_of (AList.delete k al) k = None"
  by (simp add: delete_conv')

section \<open>Facts about the path check\<close>

lemma split_on_nonempty: "split_on sep s \<noteq> []"
  by (induction s) (auto split: list.splits)

lemma split_on_no_sep: "seg \<in> set (split_on sep s) \<Longrightarrow> sep \<notin> set seg"
  by (induction s arbitrary: seg) (auto split: list.splits if_splits)

lemma split_on_plain: "sep \<notin> set seg \<Longrightarrow> split_on sep seg = [seg]"
  by (induction seg) auto

lemma split_on_append: "sep \<notin> set seg \<Longrightarrow> split_on sep (seg @ sep # rest) = seg # split_on sep rest"
  by (induction seg) auto

lemma split_on_snoc: "split_on sep (xs @ [sep]) = split_on sep xs @ [[]]"
proof (induction xs)
  case Nil
  then show ?case by simp
next
  case (Cons c cs)
  then show ?case
    using split_on_nonempty [of sep cs] by (cases "split_on sep cs") auto
qed

lemma split_on_join_slash:
  "segs \<noteq> [] \<Longrightarrow> \<forall>x \<in> set segs. CHR ''/'' \<notin> set x \<Longrightarrow>
     split_on CHR ''/'' (join_slash segs) = segs"
  by (induction segs rule: join_slash.induct) (simp_all add: split_on_plain split_on_append)

lemma join_slash_empty: "\<forall>x \<in> set segs. x \<noteq> [] \<Longrightarrow> join_slash segs = [] \<longleftrightarrow> segs = []"
  by (induction segs rule: join_slash.induct) auto

lemma foldl_norm_clean:
  "\<forall>x \<in> set segs. clean x \<Longrightarrow> foldl (norm_step a) res segs = res @ segs"
  by (induction segs arbitrary: res) (auto simp: norm_step_def clean_def)

lemma norm_step_empty: "norm_step a res [] = res"
  by (simp add: norm_step_def)

lemma norm_step_keeps_clean:
  "\<forall>x \<in> set res. clean x \<Longrightarrow> CHR ''/'' \<notin> set seg \<Longrightarrow>
     \<forall>x \<in> set (norm_step False res seg). clean x"
  by (auto simp: norm_step_def clean_def dest: in_set_butlastD)

lemma foldl_norm_all_clean:
  "\<forall>x \<in> set res. clean x \<Longrightarrow> \<forall>x \<in> set segs. CHR ''/'' \<notin> set x \<Longrightarrow>
     \<forall>x \<in> set (foldl (norm_step False) res segs). clean x"
proof (induction segs arbitrary: res)
  case Nil
  then show ?case by simp
next
  case (Cons seg segs)
  have "\<forall>x \<in> set (norm_step False res seg). clean x"
    using Cons.prems by (intro norm_step_keeps_clean) auto
  then show ?case using Cons.IH Cons.prems by simp
qed

lemma resolve_loop_absolute:
  "is_absolute cwd \<Longrightarrow> snd (resolve_loop cwd ps acc)"
  by (induction ps arbitrary: acc) (auto simp: is_absolute_def startsWith_def prefix_def)

text \<open>
  With an absolute working directory, \<open>resolve\<close> always answers the text of an absolute
  path with clean segments, and such a text resolves to itself.
\<close>

lemma resolve_shape:
  assumes "is_absolute cwd"
  shows "\<exists>segs. (\<forall>x \<in> set segs. clean x) \<and> resolve cwd ps = path_text segs"
proof -
  obtain rp ab where l: "resolve_loop cwd (rev ps) [] = (rp, ab)"
    by (cases "resolve_loop cwd (rev ps) []")
  with resolve_loop_absolute [OF assms, of "rev ps" "[]"] have ab: "ab" by simp
  let ?segs = "foldl (norm_step False) [] (split_on CHR ''/'' rp)"
  have c: "\<forall>x \<in> set ?segs. clean x"
    by (rule foldl_norm_all_clean) (auto dest: split_on_no_sep)
  then have "\<forall>x \<in> set ?segs. x \<noteq> []" by (auto simp: clean_def)
  then have "join_slash ?segs = [] \<longleftrightarrow> ?segs = []" by (rule join_slash_empty)
  then have "resolve cwd ps = path_text ?segs"
    using l ab by (auto simp: resolve_def normalizeString_def path_text_def)
  with c show ?thesis by blast
qed

lemma split_path_text:
  assumes "\<forall>x \<in> set segs. clean x"
  shows "split_on CHR ''/'' (path_text segs) = (if segs = [] then [[], []] else [] # segs)"
proof (cases "segs = []")
  case True
  then show ?thesis by (simp add: path_text_def)
next
  case False
  have "\<forall>x \<in> set segs. CHR ''/'' \<notin> set x" using assms by (auto simp: clean_def)
  with False have "split_on CHR ''/'' (join_slash segs) = segs" by (rule split_on_join_slash)
  then show ?thesis using False by (simp add: path_text_def)
qed

lemma segments_path_text:
  assumes "\<forall>x \<in> set segs. clean x"
  shows "segments (path_text segs) = segs"
proof -
  have "filter (\<lambda>seg. seg \<noteq> []) segs = segs"
    using assms by (auto simp: clean_def intro: filter_True)
  then show ?thesis
    using split_path_text [OF assms] by (simp add: segments_def)
qed

lemma resolve_path_text:
  assumes "\<forall>x \<in> set segs. clean x"
  shows "resolve cwd [path_text segs] = path_text segs"
proof -
  let ?p = "path_text segs"
  have p: "?p \<noteq> []" "hd ?p = CHR ''/''" by (simp_all add: path_text_def)
  then have l: "resolve_loop cwd (rev [?p]) [] = (?p @ ''/'', True)" by simp
  have "split_on CHR ''/'' (?p @ ''/'') = split_on CHR ''/'' ?p @ [[]]"
    by (rule split_on_snoc)
  then have "foldl (norm_step False) [] (split_on CHR ''/'' (?p @ ''/''))
               = foldl (norm_step False) [] segs"
    using split_path_text [OF assms] by (simp add: norm_step_empty)
  also have "\<dots> = segs" using foldl_norm_clean [OF assms, of False "[]"] by simp
  finally have n: "normalizeString (?p @ ''/'') False = join_slash segs"
    by (simp add: normalizeString_def)
  have "\<forall>x \<in> set segs. x \<noteq> []" using assms by (auto simp: clean_def)
  then have "join_slash segs = [] \<longleftrightarrow> segs = []" by (rule join_slash_empty)
  then show ?thesis
    unfolding resolve_def l using n by (auto simp: path_text_def)
qed

lemma relative_segments_escape:
  "\<not> prefix rs ts \<Longrightarrow> \<exists>rest. relative_segments rs ts = ''..'' # rest"
proof (induction rs arbitrary: ts)
  case Nil
  then show ?case by simp
next
  case (Cons r rs)
  then show ?case by (cases ts) auto
qed

lemma join_slash_dots: "startsWith (join_slash (''..'' # rest)) ''..''"
  by (cases rest) (simp_all add: startsWith_def)

lemma allowed_is_under_root:
  assumes "is_absolute cwd" and "isPathAllowed cwd sh targetPath"
  shows "under_root cwd sh targetPath"
proof -
  from resolve_shape [OF assms(1), of "[rootDir sh]"] obtain R
    where R: "\<forall>x \<in> set R. clean x" "resolve cwd [rootDir sh] = path_text R" by blast
  from resolve_shape [OF assms(1), of "[targetPath]"] obtain T
    where T: "\<forall>x \<in> set T. clean x" "resolve cwd [targetPath] = path_text T" by blast
  have again: "resolve cwd [path_text T] = path_text T" using T(1) by (rule resolve_path_text)
  have sR: "segments (path_text R) = R" using R(1) by (rule segments_path_text)
  have sT: "segments (path_text T) = T" using T(1) by (rule segments_path_text)
  have "prefix R T"
  proof (rule ccontr)
    assume n: "\<not> prefix R T"
    then have "R \<noteq> T" by auto
    then have ne: "path_text R \<noteq> path_text T" using sR sT by metis
    from relative_segments_escape [OF n] obtain rest
      where "relative_segments R T = ''..'' # rest" by blast
    then have "relative cwd (rootDir sh) (path_text T) = join_slash (''..'' # rest)"
      using R(2) again ne sR sT by (simp add: relative_def)
    then have "startsWith (relative cwd (rootDir sh) (path_text T)) ''..''"
      by (simp add: join_slash_dots)
    then show False using assms(2) T(2) by (simp add: isPathAllowed_def Let_def)
  qed
  then show ?thesis using R(2) T(2) sR sT by (simp add: under_root_def)
qed

text \<open>
  The scenario of the specification, an absolute argument, and a name that begins with
  two dots.
\<close>

lemma checked_path_scenario:
  "checked_path ''/repo'' repo_sub ''..'' = AbsolutePath ''/repo''"
  "checked_path ''/repo'' repo_sub ''../..'' = Denied"
  "checked_path ''/repo'' repo_sub ''../../repo2/x'' = Denied"
  "checked_path ''/repo'' repo_sub ''/etc'' = AbsolutePath ''/repo/sub''"
  "checked_path ''/repo'' (new_GenesisManRepl ''/repo'') ''..x'' = Denied"
  by code_simp+

section \<open>The claims\<close>

text \<open>
  C1. The working directory being an absolute path, for every root, every current
  directory and every argument, whatever chain of \<open>..\<close> segments it holds, the path
  check either denies the argument or goes on with a path that is the root or lies below
  it: the segments of the resolved root begin the segments of the resolved path.
\<close>

theorem checked_path_never_leaves_root:
  assumes "is_absolute cwd"
  shows "checked_path cwd sh candidate = Denied
         \<or> (\<exists>p. checked_path cwd sh candidate = AbsolutePath p \<and> under_root cwd sh p)"
proof (cases "isPathAllowed cwd sh (normalizePath cwd sh candidate)")
  case True
  then have "under_root cwd sh (normalizePath cwd sh candidate)"
    using assms by (intro allowed_is_under_root)
  then show ?thesis using True by (simp add: checked_path_def)
next
  case False
  then show ?thesis by (simp add: checked_path_def)
qed

theorem checked_path_never_leaves_root_witness:
  "is_absolute ''/repo''
   \<and> checked_path ''/repo'' repo_sub ''../x/../sub/y'' = AbsolutePath ''/repo/sub/y''
   \<and> under_root ''/repo'' repo_sub ''/repo/sub/y''"
proof -
  have a: "is_absolute ''/repo''" by (simp add: is_absolute_def startsWith_def)
  have e: "checked_path ''/repo'' repo_sub ''../x/../sub/y'' = AbsolutePath ''/repo/sub/y''"
    by code_simp
  from checked_path_never_leaves_root [OF a, where sh = repo_sub and candidate = "''../x/../sub/y''"]
  show ?thesis using a unfolding e by simp
qed

text \<open>
  C2 (as amended). In a state whose viewport height is not negative, whose first visible
  line satisfies \<open>0 \<le> topLine \<le> max(0, totalLines - viewportHeight)\<close> and whose match
  index is valid, every key is handled without failure, leaves the document and the
  viewport as they are and leaves \<open>0 \<le> topLine\<close>. Every key other than \<open>/\<close>, \<open>n\<close>
  and \<open>N\<close> leaves the whole bound in force. The keys \<open>/\<close>, \<open>n\<close> and \<open>N\<close> either
  leave \<open>topLine\<close> as it was or set it to the current match line
  \<open>matchLines[currentMatchIndex]\<close>, however close to the end that line is.
\<close>

theorem navigation_keeps_topLine_bound:
  assumes "0 \<le> terminalHeight s" and "topLine_ok s" and "idx_ok s"
  shows "\<exists>s'. handleKey E s key a = Inr s' \<and> lines s' = lines s
           \<and> terminalHeight s' = terminalHeight s \<and> 0 \<le> currentLine s'
           \<and> (key \<noteq> ''/'' \<and> key \<noteq> ''n'' \<and> key \<noteq> ''N'' \<longrightarrow> topLine_ok s')
           \<and> (key = ''/'' \<or> key = ''n'' \<or> key = ''N'' \<longrightarrow>
                currentLine s' = currentLine s
                \<or> (currentSearchIndex s' < length (searchResults s')
                    \<and> currentLine s' = int (searchResults s' ! currentSearchIndex s')))"
proof -
  consider "key = ''/''" | "key = ''n''" | "key = ''N''"
    | "key \<noteq> ''/'' \<and> key \<noteq> ''n'' \<and> key \<noteq> ''N''" by blast
  then show ?thesis
  proof cases
    case 1
    then show ?thesis using assms
      by (auto simp: handleKey_def search_def Let_def topLine_ok_def)
  next
    case 2
    show ?thesis
    proof (cases "searchResults s = []")
      case True
      then show ?thesis using 2 assms by (simp add: handleKey_def nextSearchResult_def topLine_ok_def)
    next
      case False
      then show ?thesis using 2 by (simp add: handleKey_def next_ok)
    qed
  next
    case 3
    show ?thesis
    proof (cases "searchResults s = []")
      case True
      then show ?thesis using 3 assms by (simp add: handleKey_def prevSearchResult_def topLine_ok_def)
    next
      case False
      then have "currentSearchIndex s < length (searchResults s)"
        using assms by (simp add: idx_ok_def)
      then show ?thesis using 3 False by (auto simp: handleKey_def prev_ok)
    qed
  next
    case 4
    then show ?thesis using assms by (auto simp: handleKey_def topLine_ok_def)
  qed
qed

theorem navigation_keeps_topLine_bound_witness:
  "0 \<le> terminalHeight five_lines \<and> topLine_ok five_lines \<and> idx_ok five_lines
   \<and> handleKey accept_all five_lines ''j'' None = Inr (five_lines\<lparr>currentLine := 1\<rparr>)
   \<and> topLine_ok (five_lines\<lparr>currentLine := 1\<rparr>)"
proof -
  have e: "handleKey accept_all five_lines ''j'' None = Inr (five_lines\<lparr>currentLine := 1\<rparr>)"
    by (simp add: handleKey_def five_lines_def)
  from navigation_keeps_topLine_bound [OF five_lines_ok, where key = "''j''" and a = None and E = accept_all]
  have "topLine_ok (five_lines\<lparr>currentLine := 1\<rparr>)" unfolding e by auto
  with e five_lines_ok show ?thesis by simp
qed

text \<open>
  C2 as stated fails for the search key: five lines, a viewport of three, the view at the
  top; searching for the text of the last line puts line 4 first, beyond
  \<open>max(0, 5 - 3) = 2\<close>.
\<close>

theorem search_jump_exceeds_topLine_bound:
  "topLine_ok five_lines
   \<and> readKey (Some [0x2F]) = ''/''
   \<and> handleKey accept_all five_lines ''/'' (Some ''x'')
       = Inr (five_lines\<lparr>searchTerm := ''x'', searchResults := [4], currentLine := 4\<rparr>)
   \<and> \<not> topLine_ok (five_lines\<lparr>searchTerm := ''x'', searchResults := [4], currentLine := 4\<rparr>)"
proof -
  have "readKey (Some [0x2F]) = ''/''" by code_simp
  moreover have "handleKey accept_all five_lines ''/'' (Some ''x'')
       = Inr (five_lines\<lparr>searchTerm := ''x'', searchResults := [4], currentLine := 4\<rparr>)"
    by code_simp
  moreover have "\<not> topLine_ok (five_lines\<lparr>searchTerm := ''x'', searchResults := [4], currentLine := 4\<rparr>)"
    by (simp add: topLine_ok_def five_lines_def)
  ultimately show ?thesis using five_lines_ok by simp
qed

text \<open>
  C3. A search for \<open>[\<close>, which the regular expression constructor rejects, in a pager
  that shows at least one line: \<open>search\<close> stores the term and recomputes the matches
  as for any other text, and the next drawing fails with a SyntaxError in
  \<open>highlightSearch\<close>, which nothing in the pager catches, so the loop and
  \<^verbatim>\<open>display\<close> end with that exception.
\<close>

theorem invalid_pattern_aborts_pager:
  assumes "\<not> regexp_ok E ''[''" and "draws E s"
    and "0 \<le> currentLine s" and "currentLine s < int (length (lines s))" and "0 < terminalHeight s"
  shows "highlightSearch E ''target'' ''['' = Inl SyntaxError
         \<and> searchTerm (search E s (Some ''['')) = ''[''
         \<and> searchResults (search E s (Some ''['')) = matching_lines E (lines s) ''[''
         \<and> renderLoop E s ([0x2F] # reads) (Some ''['' # answers) = Inl SyntaxError"
proof -
  let ?s1 = "search E s (Some ''['')"
  have t: "searchTerm ?s1 = ''[''" "searchResults ?s1 = matching_lines E (lines s) ''[''"
    "terminalHeight ?s1 = terminalHeight s"
    by (simp_all add: search_def Let_def)
  from search_line_in_range [OF assms(3,4), where a = "Some ''[''" and E = E]
  have r: "0 \<le> currentLine ?s1" "currentLine ?s1 < int (length (lines ?s1))" by simp_all
  have "render E ?s1 = Inl SyntaxError"
    using render_rejected [of ?s1 E] t r assms(1,5) by simp
  then have l: "renderLoop E ?s1 reads answers = Inl SyntaxError"
    by (cases reads) simp_all
  from render_ok [OF assms(2)] obtain out where o: "render E s = Inr out" by blast
  have k: "readKey (Some [0x2F]) = ''/''" by code_simp
  have "renderLoop E s ([0x2F] # reads) (Some ''['' # answers) = renderLoop E ?s1 reads answers"
    using o by (simp add: k handleKey_def prompt_def del: readKey.simps)
  with l t assms(1) show ?thesis by (simp add: highlightSearch_def)
qed

theorem invalid_pattern_aborts_pager_witness:
  "\<not> regexp_ok (stub_env (\<lambda>t. t \<noteq> ''['')) ''[''
   \<and> draws (stub_env (\<lambda>t. t \<noteq> ''['')) five_lines
   \<and> renderLoop (stub_env (\<lambda>t. t \<noteq> ''['')) five_lines [[0x2F], [0x6A]] [Some ''[''] = Inl SyntaxError"
proof -
  have h: "\<not> regexp_ok (stub_env (\<lambda>t. t \<noteq> ''['')) ''[''" "draws (stub_env (\<lambda>t. t \<noteq> ''['')) five_lines"
    "0 \<le> currentLine five_lines" "currentLine five_lines < int (length (lines five_lines))"
    "0 < terminalHeight five_lines"
    by (simp_all add: stub_env_def draws_def five_lines_def)
  from invalid_pattern_aborts_pager [OF h, of "[[0x6A]]" "[]"] h show ?thesis by simp
qed

text \<open>
  C4. With the registry as its constructor builds it, \<open>manCommand\<close> on a topic that is
  not registered prints the error banner and the list of commands and returns 0.
\<close>

theorem missing_topic_returns_zero:
  "get (initial_registry g i d) ''nosuch'' = None
   \<and> showManual E (initial_registry g i d) rows columns ''nosuch'' reads answers
       = Inr [ErrorBanner, NoManualEntry ''nosuch'', EmptyLine, AvailableHeading,
              CommandName ''dev'', CommandName ''genesis'', CommandName ''init'']
   \<and> manCommand E (initial_registry g i d) rows columns [''nosuch''] reads answers = 0"
proof -
  have l: "toLowerCase ''nosuch'' = ''nosuch''" by code_simp
  have g: "get (initial_registry g i d) ''nosuch'' = None"
    by (simp add: get_def l initial_registry_def)
  have s: "list_commands (initial_registry g i d) = [''dev'', ''genesis'', ''init'']"
    by (simp add: list_commands_def initial_registry_def)
  have m: "showManual E (initial_registry g i d) rows columns ''nosuch'' reads answers
       = Inr [ErrorBanner, NoManualEntry ''nosuch'', EmptyLine, AvailableHeading,
              CommandName ''dev'', CommandName ''genesis'', CommandName ''init'']"
    using g by (simp add: showManual_def l s)
  show ?thesis using g m by (simp add: manCommand_def)
qed

text \<open>
  C5 (as amended). A chunk of the single byte \<open>0x0A\<close> or \<open>0x0D\<close> is read as the key
  \<open>down\<close>, the key that the Down arrow gives.
\<close>

theorem enter_decodes_to_down:
  "byte = 0x0A \<or> byte = 0x0D \<Longrightarrow>
     readKey (Some [byte]) = ''down'' \<and> readKey (Some [byte]) = readKey (Some [0x1B, 0x5B, 0x42])"
  by auto

theorem enter_decodes_to_down_witness:
  "((0x0A::byte) = 0x0A \<or> (0x0A::byte) = 0x0D) \<and> readKey (Some [0x0A]) = ''down''"
  using enter_decodes_to_down [of "0x0A"] by simp

text \<open>
  C5 as stated fails: the Enter byte is read as \<open>down\<close>, and the loop scrolls by one
  line on it.
\<close>

theorem enter_is_a_navigation_key:
  "readKey (Some [0x0A]) = ''down'' \<and> readKey (Some [0x0D]) = ''down''
   \<and> readKey (Some [0x0A]) \<noteq> ''enter''
   \<and> handleKey accept_all five_lines (readKey (Some [0x0A])) None = Inr (five_lines\<lparr>currentLine := 1\<rparr>)"
  by (simp add: handleKey_def five_lines_def)

text \<open>
  C6 (as amended). After \<open>/\<close> collects a term that is not empty, the term is stored
  and the matches are recomputed: the indices, in increasing order, of exactly the lines
  that contain the term when both are lower-cased. If there is a match, the match index
  becomes 0 and the first visible line becomes the first match; if there is none, the
  match index and the first visible line stay. When the term collected is empty (or the
  prompt returns nothing), only the stored term is cleared: matches, match index and
  first visible line stay as they were.
\<close>

theorem search_recomputes_for_nonempty_term:
  "(tm \<noteq> [] \<longrightarrow>
      searchTerm (search E s (Some tm)) = tm
      \<and> searchResults (search E s (Some tm)) = matching_lines E (lines s) tm
      \<and> (matching_lines E (lines s) tm \<noteq> [] \<longrightarrow>
            currentSearchIndex (search E s (Some tm)) = 0
            \<and> currentLine (search E s (Some tm)) = int (hd (matching_lines E (lines s) tm)))
      \<and> (matching_lines E (lines s) tm = [] \<longrightarrow>
            currentSearchIndex (search E s (Some tm)) = currentSearchIndex s
            \<and> currentLine (search E s (Some tm)) = currentLine s))
   \<and> search E s (Some []) = s\<lparr>searchTerm := []\<rparr>
   \<and> search E s None = s\<lparr>searchTerm := []\<rparr>
   \<and> sorted_wrt (<) (matching_lines E (lines s) tm)
   \<and> set (matching_lines E (lines s) tm) =
       {i. i < length (lines s)
           \<and> (\<exists>ps ss. lower_case E (lines s ! i) = ps @ lower_case E tm @ ss)}"
proof -
  have a: "search E s (Some []) = s\<lparr>searchTerm := []\<rparr>" "search E s None = s\<lparr>searchTerm := []\<rparr>"
    by (simp_all add: search_def)
  have b: "searchTerm (search E s (Some tm)) = tm
      \<and> searchResults (search E s (Some tm)) = matching_lines E (lines s) tm" if "tm \<noteq> []"
    using that by (simp add: search_def Let_def)
  have c: "currentSearchIndex (search E s (Some tm)) = 0
            \<and> currentLine (search E s (Some tm)) = int (hd (matching_lines E (lines s) tm))"
    if "tm \<noteq> []" "matching_lines E (lines s) tm \<noteq> []"
    using that by (simp add: search_def Let_def hd_conv_nth)
  have d: "currentSearchIndex (search E s (Some tm)) = currentSearchIndex s
            \<and> currentLine (search E s (Some tm)) = currentLine s"
    if "tm \<noteq> []" "matching_lines E (lines s) tm = []"
    using that by (simp add: search_def Let_def)
  from a b c d matching_lines_sorted [of E "lines s" tm] matching_lines_set [of E "lines s" tm]
  show ?thesis by blast
qed

theorem search_recomputes_for_nonempty_term_witness:
  "''AB'' \<noteq> [] \<and> matching_lines accept_all (lines stale_matches) ''AB'' = [0, 2]
   \<and> searchResults (search accept_all stale_matches (Some ''AB'')) = [0, 2]
   \<and> currentSearchIndex (search accept_all stale_matches (Some ''AB'')) = 0
   \<and> currentLine (search accept_all stale_matches (Some ''AB'')) = 0
   \<and> matching_lines accept_all (lines stale_matches) ''zz'' = []
   \<and> currentSearchIndex (search accept_all stale_matches (Some ''zz'')) = 1"
proof -
  have m: "matching_lines accept_all (lines stale_matches) ''AB'' = [0, 2]" by code_simp
  have z: "matching_lines accept_all (lines stale_matches) ''zz'' = []" by code_simp
  have i: "currentSearchIndex stale_matches = 1" by (simp add: stale_matches_def)
  show ?thesis
    using m z i search_recomputes_for_nonempty_term
        [where tm = "''AB''" and s = stale_matches and E = accept_all]
      search_recomputes_for_nonempty_term
        [where tm = "''zz''" and s = stale_matches and E = accept_all]
    by simp
qed

text \<open>
  C6 as stated fails for the empty term: the matches \<open>[0, 2]\<close> of the earlier term and
  the match index 1 are still there afterwards, while every line contains the empty term.
\<close>

theorem empty_term_keeps_stale_matches:
  "searchTerm stale_matches = ''ab'' \<and> searchResults stale_matches = [0, 2]
   \<and> readKey (Some [0x2F]) = ''/''
   \<and> handleKey accept_all stale_matches ''/'' (Some []) = Inr (stale_matches\<lparr>searchTerm := []\<rparr>)
   \<and> searchResults (stale_matches\<lparr>searchTerm := []\<rparr>) = [0, 2]
   \<and> currentSearchIndex (stale_matches\<lparr>searchTerm := []\<rparr>) = 1
   \<and> matching_lines accept_all (lines stale_matches) [] = [0, 1, 2]"
proof -
  have "readKey (Some [0x2F]) = ''/''" by code_simp
  moreover have "matching_lines accept_all (lines stale_matches) [] = [0, 1, 2]" by code_simp
  moreover have "handleKey accept_all stale_matches ''/'' (Some []) = Inr (stale_matches\<lparr>searchTerm := []\<rparr>)"
    by (simp add: handleKey_def search_def)
  ultimately show ?thesis by (simp add: stale_matches_def)
qed

text \<open>
  C7. \<open>display\<close> assigns the lines of the page and sets the first visible line to 0;
  the search term, the matches and the match index are those the pager had. A pager that
  was used for a search and is given a second page starts on it with the old term and
  the old matches.
\<close>

theorem second_display_starts_with_old_search:
  "display accept_all (new_ManualPager 24 80) [''ab'', ''cd''] [[0x2F], [0x71]] [Some ''cd'']
     = Inr \<lparr> lines = [''ab'', ''cd''], currentLine = 1, terminalHeight = 20, terminalWidth = 80,
             searchTerm = ''cd'', searchResults = [1], currentSearchIndex = 0 \<rparr>
   \<and> display_start accept_all
        \<lparr> lines = [''ab'', ''cd''], currentLine = 1, terminalHeight = 20, terminalWidth = 80,
          searchTerm = ''cd'', searchResults = [1], currentSearchIndex = 0 \<rparr> [''zz'']
     = Inr \<lparr> lines = [''zz''], currentLine = 0, terminalHeight = 20, terminalWidth = 80,
             searchTerm = ''cd'', searchResults = [1], currentSearchIndex = 0 \<rparr>"
  by code_simp

text \<open>
  C8. With no matches, \<open>n\<close> and \<open>N\<close> change nothing. With matches, \<open>n\<close> moves the
  match index one step forward modulo the number of matches and \<open>N\<close> (from a valid
  index) one step backward modulo that number, and each sets the first visible line to
  the match at the new index. From index 0, pressing \<open>n\<close> as many times as there are
  matches, in a pager that can draw its view, ends with the index at 0 again and the
  first match on top.
\<close>

theorem match_navigation_is_circular:
  "(searchResults s = [] \<longrightarrow> handleKey E s ''n'' a = Inr s \<and> handleKey E s ''N'' a = Inr s)
   \<and> (searchResults s \<noteq> [] \<longrightarrow>
        handleKey E s ''n'' a =
          Inr (s\<lparr>currentSearchIndex := (currentSearchIndex s + 1) mod length (searchResults s),
                 currentLine := int (searchResults s !
                    ((currentSearchIndex s + 1) mod length (searchResults s)))\<rparr>))
   \<and> (searchResults s \<noteq> [] \<and> currentSearchIndex s < length (searchResults s) \<longrightarrow>
        handleKey E s ''N'' a =
          Inr (s\<lparr>currentSearchIndex :=
                   (currentSearchIndex s + length (searchResults s) - 1) mod length (searchResults s),
                 currentLine := int (searchResults s !
                    ((currentSearchIndex s + length (searchResults s) - 1)
                       mod length (searchResults s)))\<rparr>))
   \<and> (searchResults s \<noteq> [] \<and> currentSearchIndex s = 0 \<and> draws E s \<longrightarrow>
        (\<exists>s'. renderLoop E s (replicate (length (searchResults s)) [0x6E]) answers = Inr s'
              \<and> currentSearchIndex s' = 0 \<and> searchResults s' = searchResults s
              \<and> currentLine s' = int (searchResults s ! 0)))"
proof -
  have e: "handleKey E s ''n'' a = Inr s \<and> handleKey E s ''N'' a = Inr s" if "searchResults s = []"
    using that by (simp add: handleKey_def nextSearchResult_def prevSearchResult_def)
  have n: "handleKey E s ''n'' a =
          Inr (s\<lparr>currentSearchIndex := (currentSearchIndex s + 1) mod length (searchResults s),
                 currentLine := int (searchResults s !
                    ((currentSearchIndex s + 1) mod length (searchResults s)))\<rparr>)"
    if "searchResults s \<noteq> []"
    using that by (simp add: handleKey_def next_ok)
  have p: "handleKey E s ''N'' a =
          Inr (s\<lparr>currentSearchIndex :=
                   (currentSearchIndex s + length (searchResults s) - 1) mod length (searchResults s),
                 currentLine := int (searchResults s !
                    ((currentSearchIndex s + length (searchResults s) - 1)
                       mod length (searchResults s)))\<rparr>)"
    if "searchResults s \<noteq> [] \<and> currentSearchIndex s < length (searchResults s)"
  proof -
    let ?k = "length (searchResults s)" and ?i = "currentSearchIndex s"
    have "(?i + ?k - 1) mod ?k = (if ?i = 0 then ?k - 1 else ?i - 1)"
    proof (cases "?i = 0")
      case True
      then show ?thesis using that by simp
    next
      case False
      then have "?i + ?k - 1 = (?i - 1) + ?k" by simp
      then have "(?i + ?k - 1) mod ?k = (?i - 1) mod ?k" by simp
      also have "\<dots> = ?i - 1"
      proof -
        have "?i - 1 < ?k" using that by arith
        then show ?thesis by (rule mod_less)
      qed
      finally show ?thesis using False by simp
    qed
    then show ?thesis using that by (simp add: handleKey_def prev_ok)
  qed
  have c: "\<exists>s'. renderLoop E s (replicate (length (searchResults s)) [0x6E]) answers = Inr s'
              \<and> currentSearchIndex s' = 0 \<and> searchResults s' = searchResults s
              \<and> currentLine s' = int (searchResults s ! 0)"
    if "searchResults s \<noteq> [] \<and> currentSearchIndex s = 0 \<and> draws E s"
  proof -
    from that have "0 < length (searchResults s)" by simp
    with press_n_times [of E s "length (searchResults s)" answers] that
    show ?thesis by auto
  qed
  from e n p c show ?thesis by blast
qed

theorem match_navigation_is_circular_witness:
  "search accept_all (three_matches\<lparr>currentLine := 0, searchTerm := [], searchResults := []\<rparr>) (Some ''x'')
     = three_matches
   \<and> searchResults three_matches \<noteq> [] \<and> currentSearchIndex three_matches = 0
   \<and> draws accept_all three_matches
   \<and> handleKey accept_all three_matches ''n'' None
        = Inr (three_matches\<lparr>currentSearchIndex := 1, currentLine := 7\<rparr>)
   \<and> handleKey accept_all three_matches ''N'' None
        = Inr (three_matches\<lparr>currentSearchIndex := 2, currentLine := 12\<rparr>)
   \<and> (\<exists>s'. renderLoop accept_all three_matches (replicate 3 [0x6E]) [] = Inr s'
          \<and> currentSearchIndex s' = 0 \<and> currentLine s' = 3)
   \<and> searchResults five_lines = [] \<and> handleKey accept_all five_lines ''N'' None = Inr five_lines"
proof -
  have f: "search accept_all (three_matches\<lparr>currentLine := 0, searchTerm := [], searchResults := []\<rparr>)
             (Some ''x'') = three_matches"
    by code_simp
  have h: "searchResults three_matches \<noteq> []" "currentSearchIndex three_matches = 0"
    "currentSearchIndex three_matches < length (searchResults three_matches)"
    "length (searchResults three_matches) = 3"
    "draws accept_all three_matches" "searchResults five_lines = []"
    by (simp_all add: three_matches_def draws_def five_lines_def stub_env_def)
  have v: "searchResults three_matches ! 0 = 3" "searchResults three_matches ! 1 = 7"
    "searchResults three_matches ! 2 = 12"
    by (simp_all add: three_matches_def)
  show ?thesis
    using f h v
      match_navigation_is_circular
        [where s = three_matches and a = None and E = accept_all and answers = "[]"]
      match_navigation_is_circular
        [where s = five_lines and a = None and E = accept_all and answers = "[]"]
    by auto
qed

text \<open>
  C9. The End sequence and \<open>G\<close> are read as \<open>end\<close> and \<open>G\<close>, and either sets the
  first visible line to \<open>max(0, totalLines - viewportHeight)\<close>; the Home sequence and
  \<open>g\<close> are read as \<open>home\<close> and \<open>g\<close>, and either sets it to 0. With 100 lines and a
  viewport of 20, End gives 80 and Home after it gives 0.
\<close>

theorem end_and_home_keys:
  "readKey (Some [0x1B, 0x5B, 0x46]) = ''end'' \<and> readKey (Some [0x47]) = ''G''
   \<and> readKey (Some [0x1B, 0x5B, 0x48]) = ''home'' \<and> readKey (Some [0x67]) = ''g''
   \<and> (key = ''end'' \<or> key = ''G'' \<longrightarrow>
        handleKey E s key a = Inr (s\<lparr>currentLine := max 0 (int (length (lines s)) - terminalHeight s)\<rparr>))
   \<and> (key = ''home'' \<or> key = ''g'' \<longrightarrow> handleKey E s key a = Inr (s\<lparr>currentLine := 0\<rparr>))
   \<and> (length (lines s) = 100 \<and> terminalHeight s = 20 \<longrightarrow>
        handleKey E s ''end'' a = Inr (s\<lparr>currentLine := 80\<rparr>)
        \<and> handleKey E (s\<lparr>currentLine := 80\<rparr>) ''home'' a = Inr (s\<lparr>currentLine := 0\<rparr>))"
proof -
  have k: "readKey (Some [0x1B, 0x5B, 0x46]) = ''end''" "readKey (Some [0x47]) = ''G''"
    "readKey (Some [0x1B, 0x5B, 0x48]) = ''home''" "readKey (Some [0x67]) = ''g''"
    by code_simp+
  have e: "handleKey E s key a = Inr (s\<lparr>currentLine := max 0 (int (length (lines s)) - terminalHeight s)\<rparr>)"
    if "key = ''end'' \<or> key = ''G''"
    using that by (auto simp: handleKey_def)
  have h: "handleKey E s' key a = Inr (s'\<lparr>currentLine := 0\<rparr>)" if "key = ''home'' \<or> key = ''g''" for s'
    using that by (auto simp: handleKey_def)
  have sc: "handleKey E s ''end'' a = Inr (s\<lparr>currentLine := 80\<rparr>)
        \<and> handleKey E (s\<lparr>currentLine := 80\<rparr>) ''home'' a = Inr (s\<lparr>currentLine := 0\<rparr>)"
    if "length (lines s) = 100 \<and> terminalHeight s = 20"
    using that by (simp add: handleKey_def)
  from k e h [of s] sc show ?thesis by blast
qed

theorem end_and_home_keys_witness:
  "length (lines (new_ManualPager 24 80\<lparr>lines := replicate 100 []\<rparr>)) = 100
   \<and> terminalHeight (new_ManualPager 24 80\<lparr>lines := replicate 100 []\<rparr>) = 20
   \<and> handleKey accept_all (new_ManualPager 24 80\<lparr>lines := replicate 100 []\<rparr>) ''end'' None
       = Inr (new_ManualPager 24 80\<lparr>lines := replicate 100 [], currentLine := 80\<rparr>)
   \<and> handleKey accept_all (new_ManualPager 24 80\<lparr>lines := replicate 100 [], currentLine := 80\<rparr>) ''home'' None
       = Inr (new_ManualPager 24 80\<lparr>lines := replicate 100 [], currentLine := 0\<rparr>)"
proof -
  have h: "length (lines (new_ManualPager 24 80\<lparr>lines := replicate 100 []\<rparr>)) = 100
     \<and> terminalHeight (new_ManualPager 24 80\<lparr>lines := replicate 100 []\<rparr>) = 20"
    by (simp add: new_ManualPager_def)
  show ?thesis
    using h end_and_home_keys
        [where key = "''end''" and s = "new_ManualPager 24 80\<lparr>lines := replicate 100 []\<rparr>"
           and a = None and E = accept_all]
    by simp
qed

text \<open>
  C10. Every entry point of the registry lower-cases the command before it touches the
  map. So \<open>get\<close> and \<open>has\<close> give the same answer for a command and for its lower-case
  form; after \<open>register\<close> of a command, \<open>get\<close> returns the registered page for every
  spelling that lower-cases to the same key (and \<open>has\<close> is true there); \<open>unregister\<close>
  does the same as on the lower-case form, and afterwards every such spelling is absent.
\<close>

theorem registry_case_insensitive:
  "get pages s = get pages (toLowerCase s)
   \<and> has pages s = has pages (toLowerCase s)
   \<and> (toLowerCase s' = toLowerCase s \<longrightarrow>
        get (register pages s p) s' = Some p \<and> has (register pages s p) s')
   \<and> unregister pages s = unregister pages (toLowerCase s)
   \<and> (toLowerCase s' = toLowerCase s \<longrightarrow>
        get (snd (unregister pages s)) s' = None \<and> \<not> has (snd (unregister pages s)) s')"
proof -
  have a: "get pages s = get pages (toLowerCase s)"
    by (simp add: get_def toLowerCase_idem)
  have b: "has pages s = has pages (toLowerCase s)"
    by (simp add: has_def toLowerCase_idem)
  have c: "unregister pages s = unregister pages (toLowerCase s)"
    by (simp add: unregister_def toLowerCase_idem)
  have d: "get (register pages s p) s' = Some p \<and> has (register pages s p) s'"
    if "toLowerCase s' = toLowerCase s"
  proof -
    have "toLowerCase s \<in> set (map fst (AList.update (toLowerCase s) p pages))"
      by (simp add: update_keys)
    then have "toLowerCase s \<in> fst ` set (AList.update (toLowerCase s) p pages)"
      by simp
    then show ?thesis
      using that by (simp add: get_def has_def register_def update_conv')
  qed
  have e: "get (snd (unregister pages s)) s' = None \<and> \<not> has (snd (unregister pages s)) s'"
    if "toLowerCase s' = toLowerCase s"
  proof -
    have "map_of (AList.delete (toLowerCase s) pages) (toLowerCase s) = None"
      by (rule map_of_delete_same)
    moreover have "toLowerCase s \<notin> set (map fst (AList.delete (toLowerCase s) pages))"
      by (simp add: delete_keys)
    then have "toLowerCase s \<notin> fst ` set (AList.delete (toLowerCase s) pages)"
      by simp
    ultimately show ?thesis
      using that by (simp add: get_def has_def unregister_def)
  qed
  from a b c d e show ?thesis by blast
qed

theorem registry_case_insensitive_witness:
  "toLowerCase ''GENESIS'' = toLowerCase ''Genesis''
   \<and> get (register [(''init'', 1::nat)] ''Genesis'' 7) ''GENESIS'' = Some 7
   \<and> has (register [(''init'', 1::nat)] ''Genesis'' 7) ''GENESIS''
   \<and> get [(''init'', 1::nat)] ''INIT'' = get [(''init'', 1)] (toLowerCase ''INIT'')
   \<and> get (snd (unregister [(''init'', 1::nat)] ''Init'')) ''INIT'' = None"
proof -
  have h: "toLowerCase ''GENESIS'' = toLowerCase ''Genesis''"
    by code_simp
  have h2: "toLowerCase ''INIT'' = toLowerCase ''Init''"
    by code_simp
  show ?thesis
    using h h2
      registry_case_insensitive [of "[(''init'', 1::nat)]" "''Genesis''" "''GENESIS''" 7]
      registry_case_insensitive [of "[(''init'', 1::nat)]" "''Init''" "''INIT''" 7]
      registry_case_insensitive [of "[(''init'', 1::nat)]" "''INIT''" "''INIT''" 7]
    by blast
qed

end
